theory Spec2Isabelle
  imports Complex_Main "HOL-Library.Char_ord" "HOL-Library.List_Lexorder" "HOL-Library.Sublist"
begin

section \<open>Strings of the Python runtime\<close>

text \<open>
  Selectors, camera names and file names are Python \<open>str\<close> values. They are modelled as
  \<open>string\<close>, that is as lists of 8-bit characters read as the code points below 256
  (ASCII and Latin-1), on which comparison by code point is the order of \<open>char\<close>.
\<close>

definition quote :: char where
  "quote = CHR 0x27"

definition is_digit :: "char \<Rightarrow> bool" where
  "is_digit c = (CHR ''0'' \<le> c \<and> c \<le> CHR ''9'')"

definition digit_val :: "char \<Rightarrow> nat" where
  "digit_val c = of_char c - 48"

definition digit_chr :: "nat \<Rightarrow> char" where
  "digit_chr d = char_of (48 + d)"

text \<open>
  The white space that \<open>int\<close> drops around a literal, below 256: tab, line feed, vertical
  tab, form feed, carriage return, the space, next line \<open>0x85\<close> and the no-break space
  \<open>0xA0\<close>. (The separators \<open>0x1C\<close> to \<open>0x1F\<close> are white space for \<open>str.isspace\<close>, but
  \<open>int\<close> does not drop them: \<open>int\<close> of such a string raises \<open>ValueError\<close>.)
\<close>

definition is_space :: "char \<Rightarrow> bool" where
  "is_space c =
     (let n = (of_char c :: nat)
      in (9 \<le> n \<and> n \<le> 13) \<or> n = 32 \<or> n = 133 \<or> n = 160)"

definition strip :: "string \<Rightarrow> string" where
  "strip s = rev (dropWhile is_space (rev (dropWhile is_space s)))"

text \<open>
  The digits of a decimal literal after its first digit: further digits, each of them
  possibly preceded by one underscore. The accumulator is the value read so far.
\<close>

fun digits_val :: "nat \<Rightarrow> string \<Rightarrow> nat option" where
  "digits_val acc [] = Some acc"
| "digits_val acc (c # cs) =
     (if is_digit c then digits_val (acc * 10 + digit_val c) cs
      else if c = CHR ''_'' then
        (case cs of
           [] \<Rightarrow> None
         | d # ds \<Rightarrow> if is_digit d then digits_val (acc * 10 + digit_val d) ds else None)
      else None)"

text \<open>
  The limit of the interpreter on the digits of a literal (the default of
  \<open>sys.get_int_max_str_digits\<close>): a string with more digits, not counting underscores,
  sign and white space, is refused with \<open>ValueError\<close>.
\<close>

definition max_str_digits :: int where
  "max_str_digits = 4300"

definition unsigned_val :: "string \<Rightarrow> nat option" where
  "unsigned_val s =
     (if max_str_digits < int (length (filter is_digit s)) then None
      else
        case s of
          [] \<Rightarrow> None
        | c # cs \<Rightarrow> if is_digit c then digits_val (digit_val c) cs else None)"

text \<open>
  \<open>int(s)\<close> for a string \<open>s\<close> in base ten: surrounding white space is dropped, one sign
  is allowed, and the rest must be a decimal literal within the limit on its digits.
  \<open>None\<close> stands for \<open>ValueError\<close>.
\<close>

definition py_int :: "string \<Rightarrow> int option" where
  "py_int s =
     (case strip s of
        [] \<Rightarrow> None
      | c # cs \<Rightarrow>
          if c = CHR ''-'' then map_option (\<lambda>v. - int v) (unsigned_val cs)
          else if c = CHR ''+'' then map_option int (unsigned_val cs)
          else map_option int (unsigned_val (c # cs)))"

text \<open>
  \<open>str.lower\<close> below 256: the capital letters are \<open>A\<close> to \<open>Z\<close> and the accented
  capitals \<open>0xC0\<close> to \<open>0xDE\<close> without the multiplication sign \<open>0xD7\<close>; the small
  letter of each is 32 places further.
\<close>

definition is_upper :: "char \<Rightarrow> bool" where
  "is_upper c =
     (let n = (of_char c :: nat)
      in (65 \<le> n \<and> n \<le> 90) \<or> (192 \<le> n \<and> n \<le> 222 \<and> n \<noteq> 215))"

definition lower_chr :: "char \<Rightarrow> char" where
  "lower_chr c = (if is_upper c then char_of (of_char c + (32::nat)) else c)"

definition lower :: "string \<Rightarrow> string" where
  "lower s = map lower_chr s"

text \<open>The operator \<open>in\<close> on two strings: the left one occurs in the right one.\<close>

fun py_in :: "string \<Rightarrow> string \<Rightarrow> bool" where
  "py_in xs [] = (xs = [])"
| "py_in xs (y # ys) = (prefix xs (y # ys) \<or> py_in xs ys)"

section \<open>Device resolution\<close>

text \<open>
  The fields of a \<open>CameraInfo\<close> that the program reads: \<open>index\<close> is the device id handed
  to the capture backend, \<open>name\<close> may be absent.
\<close>

record camera_info =
  index :: int
  name :: "string option"

text \<open>
  The three places where \<open>resolve_device\<close> raises \<open>click.ClickException\<close>, with the
  selector the message quotes.
\<close>

datatype click_exception =
  NoCamerasFound
| DeviceNotFound string
| NoCameraMatching string

definition message :: "click_exception \<Rightarrow> string" where
  "message e =
     (case e of
        NoCamerasFound \<Rightarrow> ''No cameras found.''
      | DeviceNotFound device_input \<Rightarrow>
          ''Device '' @ [quote] @ device_input @ [quote]
            @ '' not found. Use '' @ [quote] @ ''timelapse devices'' @ [quote]
            @ '' to list available cameras.''
      | NoCameraMatching device_input \<Rightarrow>
          ''No camera found matching '' @ [quote] @ device_input @ [quote]
            @ ''. Use '' @ [quote] @ ''timelapse devices'' @ [quote]
            @ '' to list available cameras.'')"

text \<open>The first loop: a camera whose device id is the integer.\<close>

fun match_device_id :: "int \<Rightarrow> camera_info list \<Rightarrow> int option" where
  "match_device_id int_value [] = None"
| "match_device_id int_value (camera # cameras) =
     (if index camera = int_value then Some (index camera)
      else match_device_id int_value cameras)"

text \<open>The test of the second loop: the name is present, not empty, and contains the selector.\<close>

definition name_matches :: "string \<Rightarrow> camera_info \<Rightarrow> bool" where
  "name_matches device_input camera =
     (case name camera of
        None \<Rightarrow> False
      | Some nm \<Rightarrow> nm \<noteq> [] \<and> py_in (lower device_input) (lower nm))"

fun match_name :: "string \<Rightarrow> camera_info list \<Rightarrow> int option" where
  "match_name device_input [] = None"
| "match_name device_input (camera # cameras) =
     (if name_matches device_input camera then Some (index camera)
      else match_name device_input cameras)"

definition resolve_device :: "camera_info list \<Rightarrow> string \<Rightarrow> click_exception + int" where
  "resolve_device cameras device_input =
     (if cameras = [] then Inl NoCamerasFound
      else
        (case py_int device_input of
           Some int_value \<Rightarrow>
             (case match_device_id int_value cameras of
                Some i \<Rightarrow> Inr i
              | None \<Rightarrow>
                  if 0 \<le> int_value \<and> int_value < int (length cameras)
                  then Inr (index (cameras ! nat int_value))
                  else Inl (DeviceNotFound device_input))
         | None \<Rightarrow>
             (case match_name device_input cameras of
                Some i \<Rightarrow> Inr i
              | None \<Rightarrow> Inl (NoCameraMatching device_input))))"

section \<open>Frame file names\<close>

text \<open>The decimal digits of a natural number, as \<open>str\<close> prints them.\<close>

fun digits :: "nat \<Rightarrow> string" where
  "digits n = (if n < 10 then [digit_chr n] else digits (n div 10) @ [digit_chr (n mod 10)])"

declare digits.simps [simp del]

text \<open>
  The format specification \<open>06d\<close>: at least six characters, zeros between the sign and
  the digits.
\<close>

definition zero_pad :: "nat \<Rightarrow> string \<Rightarrow> string" where
  "zero_pad w s = replicate (w - length s) (CHR ''0'') @ s"

definition format_06d :: "int \<Rightarrow> string" where
  "format_06d n =
     (if n < 0 then CHR ''-'' # zero_pad 5 (digits (nat (- n)))
      else zero_pad 6 (digits (nat n)))"

definition frame_name :: "int \<Rightarrow> string" where
  "frame_name frame_count = ''frame_'' @ format_06d frame_count @ ''.jpg''"

section \<open>The recording loop\<close>

text \<open>
  The loop talks to the camera, the image writer, the live display and the clock, and
  \<open>SIGINT\<close> may arrive at any moment. What these do in one pass through the loop is an
  \<open>iteration\<close>; the loop consumes a list of them. \<open>sigint\<close> lists the signals delivered
  during the pass, each with the place where the handler runs: before the loop condition
  is evaluated (for the first pass, any time after the handler was installed), or around
  the read, the write, the update of the display, the wait. A signal does not interrupt
  these calls: the handler runs and the call goes on.

  The calls that may raise are the read, the write, the update of the display and the
  wait; \<open>click.echo\<close> and \<open>cap.release\<close> are taken not to raise. The interval is a \<open>float\<close>;
  it is modelled by the real number it stands for, of which the loop uses the sign only.
\<close>

datatype phase = AtCheck | InRead | InWrite | InUpdate | InSleep

datatype read_result =
  Frame         \<comment> \<open>\<open>ret\<close> is true\<close>
| NoFrame       \<comment> \<open>\<open>ret\<close> is false\<close>
| ReadRaises

datatype write_result =
  Written bool  \<comment> \<open>the value \<open>cv2.imwrite\<close> returns\<close>
| WriteRaises

record iteration =
  sigint :: "phase list"
  cap_read :: read_result
  cv2_imwrite :: write_result
  live_update_raises :: bool
  time_sleep_raises :: bool

text \<open>What the program prints, one constructor for each call that prints.\<close>

datatype line =
  ClickError click_exception   \<comment> \<open>the exception as \<open>click\<close> shows it, on stderr\<close>
| CouldNotOpen int             \<comment> \<open>stderr\<close>
| RecordingFrom int string
| CaptureInterval real
| PressCtrlC
| StoppingRecording
| FailedToCapture              \<comment> \<open>stderr\<close>
| RecordingStopped int

record imwrite_call =
  directory :: string
  filename :: string
  returned :: bool

record session =
  frame_count :: int
  stop_flag :: bool
  printed :: "line list"
  written :: "imwrite_call list"
  released :: nat

definition signal_handler :: "session \<Rightarrow> session" where
  "signal_handler s = s\<lparr>printed := printed s @ [StoppingRecording], stop_flag := True\<rparr>"

text \<open>The handler runs once for every signal that arrives at the given place.\<close>

definition deliver :: "phase \<Rightarrow> iteration \<Rightarrow> session \<Rightarrow> session" where
  "deliver p it s = fold (\<lambda>q t. if q = p then signal_handler t else t) (sigint it) s"

datatype loop_exit =
  OperatorStop     \<comment> \<open>the loop condition is false\<close>
| CaptureFailure   \<comment> \<open>\<open>break\<close> after a read without a frame\<close>
| ErrorRaised      \<comment> \<open>an exception leaves the loop body\<close>

text \<open>Writing one frame and counting it: the file name comes from the count before.\<close>

definition save_frame :: "string \<Rightarrow> bool \<Rightarrow> session \<Rightarrow> session" where
  "save_frame output_path ok s =
     s\<lparr>written := written s @
          [\<lparr>directory = output_path, filename = frame_name (frame_count s), returned = ok\<rparr>],
       frame_count := frame_count s + 1\<rparr>"

text \<open>
  The body of the loop: \<open>Inl\<close> when it leaves the loop, \<open>Inr\<close> when it reaches its end.
  \<open>time.sleep\<close> raises \<open>ValueError\<close> on a negative length; it may also raise for other
  reasons, which the iteration tells.
\<close>

definition loop_body :: "string \<Rightarrow> real \<Rightarrow> session \<Rightarrow> iteration \<Rightarrow> (loop_exit \<times> session) + session" where
  "loop_body output_path interval s1 it =
     (let s2 = deliver InRead it s1 in
      case cap_read it of
        ReadRaises \<Rightarrow> Inl (ErrorRaised, s2)
      | NoFrame \<Rightarrow> Inl (CaptureFailure, s2\<lparr>printed := printed s2 @ [FailedToCapture]\<rparr>)
      | Frame \<Rightarrow>
          let s3 = deliver InWrite it s2 in
          case cv2_imwrite it of
            WriteRaises \<Rightarrow> Inl (ErrorRaised, s3)
          | Written ok \<Rightarrow>
              let s4 = save_frame output_path ok s3;
                  s5 = deliver InUpdate it s4
              in
              if live_update_raises it then Inl (ErrorRaised, s5)
              else
                let s6 = deliver InSleep it s5 in
                if interval < 0 \<or> time_sleep_raises it then Inl (ErrorRaised, s6)
                else Inr s6)"

text \<open>
  The loop: the flag is read, then the body runs. An empty list of iterations means that
  the loop is still running: \<open>None\<close>.
\<close>

fun recording_loop :: "string \<Rightarrow> real \<Rightarrow> session \<Rightarrow> iteration list \<Rightarrow> (loop_exit \<times> session) option" where
  "recording_loop output_path interval s [] = None"
| "recording_loop output_path interval s (it # its) =
     (let s1 = deliver AtCheck it s in
      if stop_flag s1 then Some (OperatorStop, s1)
      else
        case loop_body output_path interval s1 it of
          Inl left \<Rightarrow> Some left
        | Inr s6 \<Rightarrow> recording_loop output_path interval s6 its)"

text \<open>The \<open>finally\<close> block.\<close>

definition finally_block :: "session \<Rightarrow> session" where
  "finally_block s =
     s\<lparr>released := released s + 1,
       printed := printed s @ [RecordingStopped (frame_count s)]\<rparr>"

section \<open>The command \<open>start\<close>\<close>

text \<open>
  The options as \<open>click\<close> hands them over: \<open>--device\<close> is a string (default \<open>0\<close>),
  \<open>--interval\<close> is converted by \<open>float\<close> (default 1) with no check of its range, the
  directory is optional.
\<close>

record options =
  device :: string
  interval :: real
  output_dir :: "string option"

text \<open>
  The surroundings of one run: the clock's text for the default directory, whether
  \<open>mkdir\<close> raises, the cameras enumerated, which device ids open, whether the live display
  fails to start, and the iterations of the loop.
\<close>

record world =
  timestamp :: string
  mkdir_raises :: bool
  cameras :: "camera_info list"
  is_opened :: "int \<Rightarrow> bool"
  live_raises :: bool
  iterations :: "iteration list"

datatype ending =
  Uncaught                     \<comment> \<open>an exception leaves \<open>start\<close> before the loop\<close>
| Rejected click_exception     \<comment> \<open>\<open>resolve_device\<close> raised\<close>
| OpenFailed                   \<comment> \<open>\<open>sys.exit(1)\<close>\<close>
| LoopEnded loop_exit

text \<open>
  What a run leaves behind. \<open>opened\<close> is the device id of the capture handle when it was
  opened; \<open>frames\<close> is \<open>frame_count\<close>, absent when the run ends before the variable exists.
\<close>

record result =
  ending :: ending
  exit_code :: nat
  echoed :: "line list"
  opened :: "int option"
  releases :: nat
  frames :: "int option"
  writes :: "imwrite_call list"

text \<open>The directory of the frames: the argument, or a name made of the time of the start.\<close>

definition output_path_of :: "options \<Rightarrow> world \<Rightarrow> string" where
  "output_path_of opts w =
     (case output_dir opts of None \<Rightarrow> ''capture-'' @ timestamp w | Some d \<Rightarrow> d)"

text \<open>The three lines printed once the camera is open, and the variables of the loop.\<close>

definition banner :: "int \<Rightarrow> string \<Rightarrow> real \<Rightarrow> line list" where
  "banner device_index output_path secs =
     [RecordingFrom device_index output_path, CaptureInterval secs, PressCtrlC]"

definition session0 :: "line list \<Rightarrow> session" where
  "session0 ls =
     \<lparr>frame_count = 0, stop_flag = False, printed = ls, written = [], released = 0\<rparr>"

text \<open>
  The end of a run that entered the loop: the \<open>finally\<close> block runs, then \<open>start\<close>
  returns, after \<open>break\<close> as well as after a loop condition that is false, and \<open>click\<close>
  exits with code 0; or the exception goes on to the top and the interpreter exits with
  code 1. \<open>click\<close> shows a \<open>ClickException\<close> and exits with code 1, as \<open>sys.exit(1)\<close> does.
\<close>

definition run_result :: "int \<Rightarrow> loop_exit \<Rightarrow> session \<Rightarrow> result" where
  "run_result device_index x s =
     (let s' = finally_block s
      in \<lparr>ending = LoopEnded x, exit_code = (if x = ErrorRaised then 1 else 0),
          echoed = printed s', opened = Some device_index, releases = released s',
          frames = Some (frame_count s'), writes = written s'\<rparr>)"

definition start :: "options \<Rightarrow> world \<Rightarrow> result option" where
  "start opts w =
     (let output_path = output_path_of opts w in
      if mkdir_raises w then
        Some \<lparr>ending = Uncaught, exit_code = 1, echoed = [], opened = None, releases = 0,
              frames = None, writes = []\<rparr>
      else
        case resolve_device (cameras w) (device opts) of
          Inl e \<Rightarrow>
            Some \<lparr>ending = Rejected e, exit_code = 1, echoed = [ClickError e], opened = None,
                  releases = 0, frames = None, writes = []\<rparr>
        | Inr device_index \<Rightarrow>
            if \<not> is_opened w device_index then
              Some \<lparr>ending = OpenFailed, exit_code = 1, echoed = [CouldNotOpen device_index],
                    opened = None, releases = 0, frames = None, writes = []\<rparr>
            else
              let s0 = session0 (banner device_index output_path (interval opts)) in
              if live_raises w then
                Some \<lparr>ending = Uncaught, exit_code = 1, echoed = printed s0,
                      opened = Some device_index, releases = 0, frames = Some 0, writes = []\<rparr>
              else
                case recording_loop output_path (interval opts) s0 (iterations w) of
                  None \<Rightarrow> None
                | Some (x, s) \<Rightarrow> Some (run_result device_index x s))"

section \<open>Vocabulary of the specification\<close>




text \<open>
  The specification's file name encoding: a decimal numeral of a fixed width, the last
  digit being the number modulo ten.
\<close>

primrec spec_fixed_width :: "nat \<Rightarrow> nat \<Rightarrow> string" where
  "spec_fixed_width 0 n = []"
| "spec_fixed_width (Suc w) n = spec_fixed_width w (n div 10) @ [digit_chr (n mod 10)]"

text \<open>
  An iteration that runs the body to its end: a frame is read, the writer returns, and
  nothing raises. A quiet iteration receives no signal.
\<close>

definition completes :: "real \<Rightarrow> iteration \<Rightarrow> bool" where
  "completes secs it =
     (cap_read it = Frame \<and> cv2_imwrite it \<noteq> WriteRaises \<and> \<not> live_update_raises it
      \<and> 0 \<le> secs \<and> \<not> time_sleep_raises it)"

definition quiet :: "iteration \<Rightarrow> bool" where
  "quiet it = (sigint it = [])"

text \<open>The value the writer returned, for an iteration whose write did not raise.\<close>

definition write_ok :: "iteration \<Rightarrow> bool" where
  "write_ok it = (cv2_imwrite it = Written True)"

text \<open>An iteration that ends the loop whatever came before: the flag is seen, or the body fails.\<close>

definition ends_loop :: "real \<Rightarrow> iteration \<Rightarrow> bool" where
  "ends_loop secs it = (AtCheck \<in> set (sigint it) \<or> \<not> completes secs it)"

text \<open>
  The same iteration with a writer that reports success, and a result in which every
  write is recorded as a success: what is left of a run when the value returned by the
  writer is not looked at.
\<close>

definition as_written :: "iteration \<Rightarrow> iteration" where
  "as_written it =
     it\<lparr>cv2_imwrite := (case cv2_imwrite it of Written ok \<Rightarrow> Written True | WriteRaises \<Rightarrow> WriteRaises)\<rparr>"

definition as_ok :: "imwrite_call list \<Rightarrow> imwrite_call list" where
  "as_ok cs = map (\<lambda>c. c\<lparr>returned := True\<rparr>) cs"

definition attempted :: "result \<Rightarrow> result" where
  "attempted r = r\<lparr>writes := as_ok (writes r)\<rparr>"

definition attempted_session :: "session \<Rightarrow> session" where
  "attempted_session s = s\<lparr>written := as_ok (written s)\<rparr>"

section \<open>Sample surroundings\<close>

text \<open>
  One camera that opens, the options left at their defaults, and an iteration in which a
  frame is read and written and nothing else happens.
\<close>

definition frame_ok :: iteration where
  "frame_ok = \<lparr>sigint = [], cap_read = Frame, cv2_imwrite = Written True,
               live_update_raises = False, time_sleep_raises = False\<rparr>"

definition studio :: "iteration list \<Rightarrow> world" where
  "studio its =
     \<lparr>timestamp = ''20240101-120000'', mkdir_raises = False,
      cameras = [\<lparr>index = 0, name = Some ''FaceTime HD''\<rparr>], is_opened = (\<lambda>i. True),
      live_raises = False, iterations = its\<rparr>"

definition defaults :: options where
  "defaults = \<lparr>device = ''0'', interval = 1, output_dir = None\<rparr>"

section \<open>Resolution on an empty catalog\<close>

text \<open>
  Claim C7. When the enumeration of cameras is empty, resolving any selector raises the
  exception of the first check, whose message is "No cameras found."; it is neither of the
  two exceptions that report a selector without a match, and its message is not theirs.
\<close>

theorem resolve_device_empty_catalog:
  "resolve_device [] device_input = Inl NoCamerasFound
   \<and> resolve_device [] device_input \<noteq> Inl (DeviceNotFound s)
   \<and> resolve_device [] device_input \<noteq> Inl (NoCameraMatching s)
   \<and> message NoCamerasFound = ''No cameras found.''
   \<and> message NoCamerasFound \<noteq> message (DeviceNotFound s)
   \<and> message NoCamerasFound \<noteq> message (NoCameraMatching s)"
  by (simp add: resolve_device_def message_def)

section \<open>Integer selectors\<close>

lemma match_device_id_Some:
  "(\<exists>c\<in>set cams. index c = n) \<Longrightarrow> match_device_id n cams = Some n"
  by (induction cams) auto

lemma match_device_id_None:
  "(\<forall>c\<in>set cams. index c \<noteq> n) \<Longrightarrow> match_device_id n cams = None"
  by (induction cams) auto

lemma sublist_message_DeviceNotFound:
  "sublist sel (message (DeviceNotFound sel))"
  unfolding message_def click_exception.case
  by (metis sublist_appendI append.assoc)

text \<open>
  What \<open>int\<close> reads and what it refuses, at the edges: white space around the literal and
  underscores between digits are read; a separator \<open>0x1F\<close> before the digits, a doubled,
  leading or trailing underscore, a space after the sign, the empty string and a lone sign
  are refused, and so is every string with more than 4300 digits.
\<close>

lemma py_int_padded: "py_int (CHR 0xA0 # '' -1_200 '') = Some (- 1200)"
  by code_simp


lemma py_int_malformed:
  "py_int ''1__0'' = None" "py_int ''_1'' = None" "py_int ''1_'' = None" "py_int ''- 1'' = None"
  "py_int [] = None" "py_int ''+'' = None"
  by code_simp+

lemma not_digit_sign: "\<not> is_digit (CHR ''-'')" "\<not> is_digit (CHR ''+'')"
  by code_simp+

lemma unsigned_val_digit_limit:
  "max_str_digits < int (length (filter is_digit s)) \<Longrightarrow> unsigned_val s = None"
  by (simp add: unsigned_val_def)

lemma py_int_digit_limit:
  assumes "max_str_digits < int (length (filter is_digit (strip s)))"
  shows "py_int s = None"
proof (cases "strip s")
  case Nil
  then show ?thesis by (simp add: py_int_def)
next
  case (Cons c cs)
  show ?thesis
  proof (cases "c = CHR ''-'' \<or> c = CHR ''+''")
    case True
    with assms Cons have "max_str_digits < int (length (filter is_digit cs))"
      using not_digit_sign by auto
    then have "unsigned_val cs = None" by (rule unsigned_val_digit_limit)
    with True Cons show ?thesis by (auto simp: py_int_def)
  next
    case False
    from assms Cons have "unsigned_val (c # cs) = None"
      by (intro unsigned_val_digit_limit) simp
    with False Cons show ?thesis by (simp add: py_int_def)
  qed
qed

lemma py_int_0: "py_int ''0'' = Some 0"
  by code_simp

lemma py_int_55: "py_int ''55'' = Some 55"
  by code_simp

lemma py_int_7: "py_int ''7'' = Some 7"
  by code_simp

text \<open>
  Claim C1. On a catalog that is not empty, a selector that \<open>int\<close> reads as \<open>n\<close> resolves
  to \<open>n\<close> whenever some camera has device id \<open>n\<close>, also when \<open>n\<close> is a position of the
  list; when no camera has that id and \<open>n\<close> is a position, it resolves to the device id of
  the camera at that position; otherwise the exception is the one whose message quotes the
  selector as it was given.
\<close>

theorem resolve_device_integer:
  assumes "cams \<noteq> []" and "py_int sel = Some n"
  shows "((\<exists>c\<in>set cams. index c = n) \<longrightarrow> resolve_device cams sel = Inr n)
       \<and> ((\<forall>c\<in>set cams. index c \<noteq> n) \<and> 0 \<le> n \<and> n < int (length cams)
            \<longrightarrow> resolve_device cams sel = Inr (index (cams ! nat n)))
       \<and> ((\<forall>c\<in>set cams. index c \<noteq> n) \<and> \<not> (0 \<le> n \<and> n < int (length cams))
            \<longrightarrow> resolve_device cams sel = Inl (DeviceNotFound sel)
                \<and> sublist sel (message (DeviceNotFound sel)))"
  using assms
  by (auto simp: resolve_device_def match_device_id_Some match_device_id_None
        sublist_message_DeviceNotFound)

text \<open>
  The theorem at work: the selector \<open>0\<close> is a device id of the second camera and a position
  as well, and the id wins; on the catalog of the specification's scenario \<open>55\<close> is an id
  beyond the positions, \<open>0\<close> is a position only, and \<open>7\<close> is neither.
\<close>

theorem resolve_device_integer_witness:
  "resolve_device [\<lparr>index = 1, name = Some ''Anker PowerConf C200''\<rparr>,
                   \<lparr>index = 0, name = Some ''FaceTime HD''\<rparr>] ''0'' = Inr 0
   \<and> resolve_device [\<lparr>index = 1200, name = Some ''Anker PowerConf C200''\<rparr>,
                   \<lparr>index = 55, name = Some ''FaceTime HD''\<rparr>] ''55'' = Inr 55
   \<and> resolve_device [\<lparr>index = 1200, name = Some ''Anker PowerConf C200''\<rparr>,
                   \<lparr>index = 55, name = Some ''FaceTime HD''\<rparr>] ''0'' = Inr 1200
   \<and> resolve_device [\<lparr>index = 1200, name = Some ''Anker PowerConf C200''\<rparr>,
                   \<lparr>index = 55, name = Some ''FaceTime HD''\<rparr>] ''7'' = Inl (DeviceNotFound ''7'')
   \<and> sublist ''7'' (message (DeviceNotFound ''7''))"
  using
    resolve_device_integer [OF _ py_int_0,
      of "[\<lparr>index = 1, name = Some ''Anker PowerConf C200''\<rparr>,
           \<lparr>index = 0, name = Some ''FaceTime HD''\<rparr>]"]
    resolve_device_integer [OF _ py_int_55,
      of "[\<lparr>index = 1200, name = Some ''Anker PowerConf C200''\<rparr>,
           \<lparr>index = 55, name = Some ''FaceTime HD''\<rparr>]"]
    resolve_device_integer [OF _ py_int_0,
      of "[\<lparr>index = 1200, name = Some ''Anker PowerConf C200''\<rparr>,
           \<lparr>index = 55, name = Some ''FaceTime HD''\<rparr>]"]
    resolve_device_integer [OF _ py_int_7,
      of "[\<lparr>index = 1200, name = Some ''Anker PowerConf C200''\<rparr>,
           \<lparr>index = 55, name = Some ''FaceTime HD''\<rparr>]"]
  by simp

section \<open>Selectors that are names\<close>




lemma of_char_lt_256: "(of_char c :: nat) < 256"
proof -
  have "(of_char c :: nat) mod 256 = of_char c" by (rule of_char_mod_256)
  moreover have "(of_char c :: nat) mod 256 < 256" by simp
  ultimately show ?thesis by simp
qed


lemma char_of_add32: "n < 224 \<Longrightarrow> (of_char (char_of (n + 32 :: nat)) :: nat) = n + 32"
  by (simp add: of_char_of)
















section \<open>Frame file names in capture order\<close>

lemma digit_chr_less: "a < b \<Longrightarrow> b < 10 \<Longrightarrow> digit_chr a < digit_chr b"
  by (simp add: digit_chr_def less_char_def of_char_of)

lemma digit_chr_0: "digit_chr 0 = CHR ''0''"
  by code_simp

lemma length_fixed_width: "length (spec_fixed_width w n) = w"
  by (induction w arbitrary: n) simp_all

lemma fixed_width_0: "spec_fixed_width w 0 = replicate w (CHR ''0'')"
  by (induction w) (simp_all add: digit_chr_0 replicate_append_same)

lemma zero_pad_snoc: "zero_pad (Suc w) (xs @ [d]) = zero_pad w xs @ [d]"
  by (simp add: zero_pad_def)

lemma zero_pad_digits:
  "n < 10 ^ Suc w \<Longrightarrow> zero_pad (Suc w) (digits n) = spec_fixed_width (Suc w) n"
proof (induction w arbitrary: n)
  case 0
  then have "n < 10" by simp
  then show ?case
    by (simp add: digits.simps [of n] zero_pad_def)
next
  case (Suc w)
  show ?case
  proof (cases "n < 10")
    case True
    then have "digits n = [digit_chr n]" and "n div 10 = 0" and "n mod 10 = n"
      by (simp_all add: digits.simps [of n])
    then show ?thesis
      by (simp add: zero_pad_def fixed_width_0 del: spec_fixed_width.simps
            add: spec_fixed_width.simps(2) [of "Suc w" n])
  next
    case False
    then have d: "digits n = digits (n div 10) @ [digit_chr (n mod 10)]"
      by (simp add: digits.simps [of n])
    from Suc.prems have "n div 10 < 10 ^ Suc w"
      by (simp add: less_mult_imp_div_less mult.commute)
    then have "zero_pad (Suc w) (digits (n div 10)) = spec_fixed_width (Suc w) (n div 10)"
      by (rule Suc.IH)
    then show ?thesis
      unfolding d zero_pad_snoc spec_fixed_width.simps(2) [of "Suc w" n] by simp
  qed
qed

lemma less_snoc_same_length:
  fixes xs ys :: "'a::linorder list"
  assumes "xs < ys" and "length xs = length ys"
  shows "xs @ us < ys @ vs"
  using assms unfolding list_less_def by (simp add: lexord_sufI)

lemma less_snoc_last:
  fixes a b :: "'a::linorder"
  assumes "a < b"
  shows "xs @ [a] < xs @ [b]"
  using assms unfolding list_less_def by (simp add: lexord_append_left_rightI)

lemma less_same_prefix:
  fixes xs ys :: "'a::linorder list"
  shows "xs < ys \<Longrightarrow> ps @ xs < ps @ ys"
  unfolding list_less_def by (rule lexord_append_leftI)

lemma fixed_width_mono:
  "i < j \<Longrightarrow> j < 10 ^ w \<Longrightarrow> spec_fixed_width w i < spec_fixed_width w j"
proof (induction w arbitrary: i j)
  case 0
  then show ?case by simp
next
  case (Suc w)
  from Suc.prems have le: "i div 10 \<le> j div 10"
    by (simp add: div_le_mono)
  from Suc.prems have jd: "j div 10 < 10 ^ w"
    by (simp add: less_mult_imp_div_less mult.commute)
  show ?case
  proof (cases "i div 10 < j div 10")
    case True
    then have "spec_fixed_width w (i div 10) < spec_fixed_width w (j div 10)"
      using jd by (rule Suc.IH)
    then show ?thesis
      by (simp add: less_snoc_same_length length_fixed_width)
  next
    case False
    with le have eq: "i div 10 = j div 10" by simp
    with Suc.prems have "i mod 10 < j mod 10"
      by (metis div_mult_mod_eq nat_add_left_cancel_less)
    then have "digit_chr (i mod 10) < digit_chr (j mod 10)"
      by (rule digit_chr_less) simp
    then show ?thesis
      by (simp add: eq less_snoc_last)
  qed
qed

lemma format_06d_fixed: "0 \<le> k \<Longrightarrow> k \<le> 999999 \<Longrightarrow> format_06d k = spec_fixed_width 6 (nat k)"
proof -
  assume "0 \<le> k" "k \<le> 999999"
  then have "nat k < 10 ^ Suc 5" by simp
  then have "zero_pad (Suc 5) (digits (nat k)) = spec_fixed_width (Suc 5) (nat k)"
    by (rule zero_pad_digits)
  moreover have "Suc 5 = 6" by simp
  ultimately show ?thesis
    using \<open>0 \<le> k\<close> by (simp add: format_06d_def)
qed

text \<open>
  Claim C2. For a frame index from 0 to 999999 the file name is \<open>frame_\<close>, the index as a
  decimal numeral of exactly six digits with leading zeros, and \<open>.jpg\<close>; and the name of
  an index is smaller, in the lexicographic order of strings, than the name of every later
  index up to 999999.
\<close>

theorem frame_name_fixed_width_ordered:
  assumes "0 \<le> k" and "k \<le> 999999"
  shows "frame_name k = ''frame_'' @ spec_fixed_width 6 (nat k) @ ''.jpg''
       \<and> length (format_06d k) = 6
       \<and> (\<forall>j. k < j \<and> j \<le> 999999 \<longrightarrow> frame_name k < frame_name j)"
proof (intro conjI allI impI)
  show "frame_name k = ''frame_'' @ spec_fixed_width 6 (nat k) @ ''.jpg''"
    using assms by (simp add: frame_name_def format_06d_fixed)
  show "length (format_06d k) = 6"
    using assms by (simp add: format_06d_fixed length_fixed_width)
  fix j assume j: "k < j \<and> j \<le> 999999"
  with assms have "nat k < nat j" and "nat j < 10 ^ 6" by auto
  then have "spec_fixed_width 6 (nat k) < spec_fixed_width 6 (nat j)"
    by (rule fixed_width_mono)
  then have "spec_fixed_width 6 (nat k) @ ''.jpg'' < spec_fixed_width 6 (nat j) @ ''.jpg''"
    by (simp add: less_snoc_same_length length_fixed_width)
  then have "''frame_'' @ spec_fixed_width 6 (nat k) @ ''.jpg''
           < ''frame_'' @ spec_fixed_width 6 (nat j) @ ''.jpg''"
    by (rule less_same_prefix)
  then show "frame_name k < frame_name j"
    using assms j by (simp add: frame_name_def format_06d_fixed)
qed

text \<open>The theorem at index 7, with the name the specification gives for it.\<close>

theorem frame_name_fixed_width_ordered_witness:
  "frame_name 7 = ''frame_000007.jpg'' \<and> length (format_06d 7) = 6
   \<and> frame_name 7 < frame_name 12 \<and> frame_name 7 < frame_name 999999"
proof -
  have a: "(0::int) \<le> 7" and b: "(7::int) \<le> 999999" by simp_all
  have fw: "spec_fixed_width 6 (nat 7) = ''000007''" by code_simp
  note th = frame_name_fixed_width_ordered [OF a b]
  from th have "frame_name 7 = ''frame_'' @ spec_fixed_width 6 (nat 7) @ ''.jpg''" by blast
  then have 1: "frame_name 7 = ''frame_000007.jpg''" by (simp only: fw) simp
  from th have 2: "length (format_06d 7) = 6" by blast
  from th have all: "\<forall>j. 7 < j \<and> j \<le> 999999 \<longrightarrow> frame_name 7 < frame_name j" by blast
  from all have 3: "frame_name 7 < frame_name 12" by simp
  from all have 4: "frame_name 7 < frame_name 999999" by simp
  from 1 2 3 4 show ?thesis by blast
qed

section \<open>The loop, step by step\<close>

text \<open>
  Signals change the flag and what is printed, nothing else; a frame that is saved moves
  the count by one and adds one call of the writer.
\<close>

lemma deliver_fields [simp]:
  "frame_count (deliver p it s) = frame_count s"
  "written (deliver p it s) = written s"
  "released (deliver p it s) = released s"
proof -
  have "frame_count (fold (\<lambda>q t. if q = p then signal_handler t else t) qs s) = frame_count s
      \<and> written (fold (\<lambda>q t. if q = p then signal_handler t else t) qs s) = written s
      \<and> released (fold (\<lambda>q t. if q = p then signal_handler t else t) qs s) = released s" for qs
    by (induction qs arbitrary: s) (simp_all add: signal_handler_def)
  then show "frame_count (deliver p it s) = frame_count s"
    "written (deliver p it s) = written s"
    "released (deliver p it s) = released s"
    by (simp_all add: deliver_def)
qed

lemma deliver_stop_flag [simp]:
  "stop_flag (deliver p it s) = (stop_flag s \<or> p \<in> set (sigint it))"
proof -
  have "stop_flag (fold (\<lambda>q t. if q = p then signal_handler t else t) qs s)
          = (stop_flag s \<or> p \<in> set qs)" for qs
    by (induction qs arbitrary: s) (auto simp: signal_handler_def)
  then show ?thesis by (simp add: deliver_def)
qed

lemma deliver_quiet [simp]: "quiet it \<Longrightarrow> deliver p it s = s"
  by (simp add: deliver_def quiet_def)

lemma save_frame_fields [simp]:
  "frame_count (save_frame p ok s) = frame_count s + 1"
  "stop_flag (save_frame p ok s) = stop_flag s"
  "printed (save_frame p ok s) = printed s"
  "released (save_frame p ok s) = released s"
  "written (save_frame p ok s)
     = written s @ [\<lparr>directory = p, filename = frame_name (frame_count s), returned = ok\<rparr>]"
  by (simp_all add: save_frame_def)

lemma loop_body_completes:
  "completes secs it \<Longrightarrow> \<exists>ok. cv2_imwrite it = Written ok \<and>
     loop_body p secs s it
       = Inr (deliver InSleep it (deliver InUpdate it
               (save_frame p ok (deliver InWrite it (deliver InRead it s)))))"
  by (cases "cv2_imwrite it") (auto simp: completes_def loop_body_def Let_def)

lemma loop_body_quiet_completes:
  "quiet it \<Longrightarrow> completes secs it \<Longrightarrow> loop_body p secs s it = Inr (save_frame p (write_ok it) s)"
  using loop_body_completes [of secs it p s]
  by (auto simp: write_ok_def)

lemma loop_body_not_completes:
  "\<not> completes secs it \<Longrightarrow> \<exists>x s'. loop_body p secs s it = Inl (x, s')"
  by (cases "cap_read it"; cases "cv2_imwrite it")
     (auto simp: completes_def loop_body_def Let_def)

lemma loop_body_counts:
  assumes "loop_body p secs s it = Inl (x, s') \<or> loop_body p secs s it = Inr s'"
  shows "released s' = released s"
    and "frame_count s' - int (length (written s')) = frame_count s - int (length (written s))"
    and "frame_count s \<le> frame_count s'" and "frame_count s' \<le> frame_count s + 1"
  using assms
  by (cases "cap_read it"; cases "cv2_imwrite it";
      auto simp: loop_body_def Let_def split: if_splits)+

lemma recording_loop_counts:
  "recording_loop p secs s its = Some (x, s') \<Longrightarrow>
     released s' = released s
     \<and> frame_count s' - int (length (written s')) = frame_count s - int (length (written s))
     \<and> frame_count s \<le> frame_count s'"
proof (induction its arbitrary: s)
  case Nil
  then show ?case by simp
next
  case (Cons it its)
  let ?s1 = "deliver AtCheck it s"
  show ?case
  proof (cases "stop_flag ?s1")
    case True
    with Cons.prems show ?thesis by (auto simp: Let_def)
  next
    case False
    show ?thesis
    proof (cases "loop_body p secs ?s1 it")
      case (Inl left)
      with False Cons.prems have "loop_body p secs ?s1 it = Inl (x, s')"
        by (auto simp: Let_def)
      from loop_body_counts [OF disjI1, OF this] show ?thesis by simp
    next
      case (Inr s6)
      with False Cons.prems have "recording_loop p secs s6 its = Some (x, s')"
        by (auto simp: Let_def)
      from Cons.IH [OF this] loop_body_counts [OF disjI2, OF Inr] show ?thesis by simp
    qed
  qed
qed

text \<open>The state after a run of quiet iterations that complete.\<close>

lemma fold_save_frame_fields:
  "frame_count (fold (\<lambda>it. save_frame p (write_ok it)) pre s) = frame_count s + int (length pre)"
  "stop_flag (fold (\<lambda>it. save_frame p (write_ok it)) pre s) = stop_flag s"
  "printed (fold (\<lambda>it. save_frame p (write_ok it)) pre s) = printed s"
  "released (fold (\<lambda>it. save_frame p (write_ok it)) pre s) = released s"
  by (induction pre arbitrary: s) simp_all

lemma fold_save_frame_written:
  "written (fold (\<lambda>it. save_frame p (write_ok it)) pre s)
     = written s @ map (\<lambda>j. \<lparr>directory = p, filename = frame_name (frame_count s + int j),
                              returned = write_ok (pre ! j)\<rparr>) [0..<length pre]"
proof (induction pre arbitrary: s)
  case Nil
  then show ?case by simp
next
  case (Cons it pre)
  have "map (\<lambda>j. \<lparr>directory = p, filename = frame_name (frame_count s + int j),
                   returned = write_ok ((it # pre) ! j)\<rparr>) [0..<length (it # pre)]
      = \<lparr>directory = p, filename = frame_name (frame_count s), returned = write_ok it\<rparr>
        # map (\<lambda>j. \<lparr>directory = p, filename = frame_name (frame_count s + 1 + int j),
                       returned = write_ok (pre ! j)\<rparr>) [0..<length pre]"
    by (simp add: upt_conv_Cons map_Suc_upt [symmetric] add.commute add.left_commute
          del: upt_Suc)
  then show ?case
    by (simp add: Cons.IH)
qed

lemma recording_loop_prefix:
  "\<forall>it\<in>set pre. quiet it \<and> completes secs it \<Longrightarrow> \<not> stop_flag s \<Longrightarrow>
     recording_loop p secs s (pre @ its)
       = recording_loop p secs (fold (\<lambda>it. save_frame p (write_ok it)) pre s) its"
proof (induction pre arbitrary: s)
  case Nil
  then show ?case by simp
next
  case (Cons it pre)
  then have "quiet it" "completes secs it" by simp_all
  then have "recording_loop p secs s ((it # pre) @ its)
           = recording_loop p secs (save_frame p (write_ok it) s) (pre @ its)"
    using Cons.prems(2) by (simp add: loop_body_quiet_completes)
  also have "\<dots> = recording_loop p secs
        (fold (\<lambda>it. save_frame p (write_ok it)) pre (save_frame p (write_ok it) s)) its"
    using Cons.prems by (intro Cons.IH) simp_all
  finally show ?case by simp
qed

lemma recording_loop_returns:
  "\<exists>it\<in>set its. ends_loop secs it \<Longrightarrow> \<exists>x s'. recording_loop p secs s its = Some (x, s')"
proof (induction its arbitrary: s)
  case Nil
  then show ?case by simp
next
  case (Cons it its)
  let ?s1 = "deliver AtCheck it s"
  show ?case
  proof (cases "stop_flag ?s1")
    case True
    then show ?thesis by (simp add: Let_def)
  next
    case False
    then have nc: "AtCheck \<notin> set (sigint it)" by simp
    show ?thesis
    proof (cases "completes secs it")
      case True
      with nc Cons.prems have "\<exists>it\<in>set its. ends_loop secs it"
        by (auto simp: ends_loop_def)
      from Cons.IH [OF this] loop_body_completes [OF True, of p ?s1] False
      show ?thesis by (auto simp: Let_def)
    next
      case nt: False
      from loop_body_not_completes [OF nt, of p ?s1] False
      show ?thesis by (auto simp: Let_def)
    qed
  qed
qed

text \<open>A run that resolves and opens its device and starts the display is its loop.\<close>

lemma start_enters_loop:
  assumes "\<not> mkdir_raises w" and "resolve_device (cameras w) (device opts) = Inr d"
    and "is_opened w d" and "\<not> live_raises w"
  shows "start opts w =
           map_option (\<lambda>(x, s). run_result d x s)
             (recording_loop (output_path_of opts w) (interval opts)
                (session0 (banner d (output_path_of opts w) (interval opts))) (iterations w))"
  using assms by (simp add: start_def Let_def split: option.splits)

lemma start_loop_Some:
  assumes "\<not> mkdir_raises w" and "resolve_device (cameras w) (device opts) = Inr d"
    and "is_opened w d" and "\<not> live_raises w"
    and "recording_loop (output_path_of opts w) (interval opts)
           (session0 (banner d (output_path_of opts w) (interval opts))) (iterations w)
         = Some (x, s)"
  shows "start opts w = Some (run_result d x s)"
  using assms by (simp add: start_def Let_def)

lemma start_loop_SomeD:
  assumes "\<not> mkdir_raises w" and "resolve_device (cameras w) (device opts) = Inr d"
    and "is_opened w d" and "\<not> live_raises w"
    and "start opts w = Some r"
  shows "\<exists>x s. recording_loop (output_path_of opts w) (interval opts)
                 (session0 (banner d (output_path_of opts w) (interval opts))) (iterations w)
               = Some (x, s) \<and> r = run_result d x s"
  using assms by (auto simp: start_def Let_def split: option.splits)

lemma run_result_fields [simp]:
  "ending (run_result d x s) = LoopEnded x"
  "exit_code (run_result d x s) = (if x = ErrorRaised then 1 else 0)"
  "echoed (run_result d x s) = printed s @ [RecordingStopped (frame_count s)]"
  "opened (run_result d x s) = Some d"
  "releases (run_result d x s) = released s + 1"
  "frames (run_result d x s) = Some (frame_count s)"
  "writes (run_result d x s) = written s"
  by (simp_all add: run_result_def finally_block_def Let_def)

lemma session0_fields [simp]:
  "frame_count (session0 ls) = 0" "stop_flag (session0 ls) = False"
  "printed (session0 ls) = ls" "written (session0 ls) = []" "released (session0 ls) = 0"
  by (simp_all add: session0_def)

lemma start_loop_ended:
  assumes "start opts w = Some r" and "ending r = LoopEnded x"
  shows "\<exists>d s. r = run_result d x s
           \<and> recording_loop (output_path_of opts w) (interval opts)
                (session0 (banner d (output_path_of opts w) (interval opts))) (iterations w)
              = Some (x, s)"
  using assms
  by (auto simp: start_def Let_def split: if_splits sum.splits option.splits) blast

text \<open>The sample surroundings, field by field.\<close>

lemma studio_fields [simp]:
  "mkdir_raises (studio its) = False" "live_raises (studio its) = False"
  "is_opened (studio its) d = True" "iterations (studio its) = its"
  "cameras (studio its) = [\<lparr>index = 0, name = Some ''FaceTime HD''\<rparr>]"
  by (simp_all add: studio_def)

lemma studio_resolves: "resolve_device (cameras (studio its)) (device defaults) = Inr 0"
  unfolding studio_fields by code_simp

lemma frame_ok_completes: "quiet frame_ok" "completes 1 frame_ok" "write_ok frame_ok"
  by (simp_all add: quiet_def completes_def write_ok_def frame_ok_def)

lemma defaults_fields [simp]:
  "interval defaults = 1" "device defaults = ''0''" "output_dir defaults = None"
  "device (defaults\<lparr>interval := secs\<rparr>) = ''0''" "interval (defaults\<lparr>interval := secs\<rparr>) = secs"
  by (simp_all add: defaults_def)

section \<open>A read without a frame\<close>

text \<open>
  Claim C3. Let the device be resolved and opened, let \<open>k\<close> iterations pass in which a
  frame is read and written and nothing else happens, and let the next read return no
  frame. Then the run ends: the loop is left by \<open>break\<close>, the count is \<open>k\<close>, the files
  \<open>frame_000000\<close> up to index \<open>k - 1\<close> were written with success into the output
  directory, the error line and then the count \<open>k\<close> were printed, and the handle was
  released once. The exit code, however, is 0: \<open>start\<close> returns after the \<open>finally\<close>
  block, where the claim asks for a code that is not zero.
\<close>

theorem capture_failure_after_frames:
  assumes "\<not> mkdir_raises w" and "resolve_device (cameras w) (device opts) = Inr d"
    and "is_opened w d" and "\<not> live_raises w"
    and "iterations w = pre @ failing # rest"
    and "\<forall>it\<in>set pre. quiet it \<and> completes (interval opts) it \<and> write_ok it"
    and "AtCheck \<notin> set (sigint failing)" and "cap_read failing = NoFrame"
  shows "\<exists>r. start opts w = Some r
           \<and> ending r = LoopEnded CaptureFailure
           \<and> frames r = Some (int (length pre))
           \<and> map filename (writes r) = map (\<lambda>j. frame_name (int j)) [0..<length pre]
           \<and> (\<forall>c\<in>set (writes r). returned c \<and> directory c = output_path_of opts w)
           \<and> FailedToCapture \<in> set (echoed r)
           \<and> last (echoed r) = RecordingStopped (int (length pre))
           \<and> releases r = 1
           \<and> exit_code r = 0"
proof -
  let ?p = "output_path_of opts w"
  let ?s0 = "session0 (banner d ?p (interval opts))"
  let ?sk = "fold (\<lambda>it. save_frame ?p (write_ok it)) pre ?s0"
  let ?sr = "deliver InRead failing (deliver AtCheck failing ?sk)"
  let ?sf = "?sr\<lparr>printed := printed ?sr @ [FailedToCapture]\<rparr>"
  have pre: "\<forall>it\<in>set pre. quiet it \<and> completes (interval opts) it"
    using assms(6) by blast
  have "recording_loop ?p (interval opts) ?s0 (pre @ failing # rest)
      = recording_loop ?p (interval opts) ?sk (failing # rest)"
    using pre by (intro recording_loop_prefix) simp_all
  also have "\<dots> = Some (CaptureFailure, ?sf)"
    using assms(7,8) by (simp add: fold_save_frame_fields loop_body_def Let_def)
  finally have run: "start opts w = Some (run_result d CaptureFailure ?sf)"
    using start_enters_loop [OF assms(1-4)] assms(5) by simp
  have wr: "written ?sf = map (\<lambda>j. \<lparr>directory = ?p, filename = frame_name (int j),
                              returned = write_ok (pre ! j)\<rparr>) [0..<length pre]"
    by (simp add: fold_save_frame_written)
  have "map filename (written ?sf) = map (\<lambda>j. frame_name (int j)) [0..<length pre]"
    unfolding wr by (simp add: comp_def)
  moreover have "\<forall>c\<in>set (written ?sf). returned c \<and> directory c = ?p"
    unfolding wr using assms(6) by auto
  moreover have "frame_count ?sf = int (length pre)" "released ?sf = 0"
    by (simp_all add: fold_save_frame_fields)
  ultimately show ?thesis
    unfolding run by simp
qed

text \<open>The theorem on a camera that fails at its fifth read: four frames, exit code 0.\<close>

theorem capture_failure_after_frames_witness:
  "\<exists>r. start defaults (studio (replicate 4 frame_ok @ [frame_ok\<lparr>cap_read := NoFrame\<rparr>])) = Some r
     \<and> ending r = LoopEnded CaptureFailure \<and> frames r = Some 4
     \<and> map filename (writes r)
         = [''frame_000000.jpg'', ''frame_000001.jpg'', ''frame_000002.jpg'', ''frame_000003.jpg'']
     \<and> last (echoed r) = RecordingStopped 4 \<and> releases r = 1 \<and> exit_code r = 0"
proof -
  let ?pre = "replicate 4 frame_ok"
  let ?failing = "frame_ok\<lparr>cap_read := NoFrame\<rparr>"
  let ?w = "studio (?pre @ [?failing])"
  have names: "map (\<lambda>j. frame_name (int j)) [0..<4]
      = [''frame_000000.jpg'', ''frame_000001.jpg'', ''frame_000002.jpg'', ''frame_000003.jpg'']"
    by code_simp
  have len: "length ?pre = 4" by simp
  have h1: "\<not> mkdir_raises ?w" by simp
  have h3: "is_opened ?w 0" by simp
  have h4: "\<not> live_raises ?w" by simp
  have h5: "iterations ?w = ?pre @ ?failing # []" by simp
  have h6: "\<forall>it\<in>set ?pre. quiet it \<and> completes (interval defaults) it \<and> write_ok it"
    by (simp add: frame_ok_completes)
  have h7: "AtCheck \<notin> set (sigint ?failing)" by (simp add: frame_ok_def)
  have h8: "cap_read ?failing = NoFrame" by simp
  from capture_failure_after_frames [OF h1 studio_resolves h3 h4 h5 h6 h7 h8]
  obtain r where r: "start defaults ?w = Some r
           \<and> ending r = LoopEnded CaptureFailure
           \<and> frames r = Some (int (length ?pre))
           \<and> map filename (writes r) = map (\<lambda>j. frame_name (int j)) [0..<length ?pre]
           \<and> (\<forall>c\<in>set (writes r). returned c \<and> directory c = output_path_of defaults ?w)
           \<and> FailedToCapture \<in> set (echoed r)
           \<and> last (echoed r) = RecordingStopped (int (length ?pre))
           \<and> releases r = 1
           \<and> exit_code r = 0" ..
  note c1 = r [THEN conjunct1]
  note c2 = r [THEN conjunct2, THEN conjunct1]
  note c3 = r [THEN conjunct2, THEN conjunct2, THEN conjunct1]
  note c4 = r [THEN conjunct2, THEN conjunct2, THEN conjunct2, THEN conjunct1]
  note t4 = r [THEN conjunct2, THEN conjunct2, THEN conjunct2, THEN conjunct2]
  note c7 = t4 [THEN conjunct2, THEN conjunct2, THEN conjunct1]
  note c8 = t4 [THEN conjunct2, THEN conjunct2, THEN conjunct2, THEN conjunct1]
  note c9 = t4 [THEN conjunct2, THEN conjunct2, THEN conjunct2, THEN conjunct2]
  have f: "frames r = Some 4" using c3 unfolding len by simp
  have n: "map filename (writes r)
       = [''frame_000000.jpg'', ''frame_000001.jpg'', ''frame_000002.jpg'', ''frame_000003.jpg'']"
    using c4 unfolding len names .
  have l: "last (echoed r) = RecordingStopped 4" using c7 unfolding len by simp
  show ?thesis
    by (rule exI [of _ r]) (intro conjI c1 c2 f n l c8 c9)
qed

section \<open>Release of the capture handle\<close>

text \<open>
  Claim C5. Let the device be resolved and opened and the live display started, so that
  the loop is entered. Then every run that ends has left the loop on one of its three
  ways out and has released the handle exactly once; and a run does end as soon as some
  iteration sees the flag at the check or fails in the body.
\<close>

theorem handle_released_exactly_once:
  assumes "\<not> mkdir_raises w" and "resolve_device (cameras w) (device opts) = Inr d"
    and "is_opened w d" and "\<not> live_raises w"
  shows "(\<forall>r. start opts w = Some r
            \<longrightarrow> (\<exists>x. ending r = LoopEnded x) \<and> opened r = Some d \<and> releases r = 1)
       \<and> ((\<exists>it\<in>set (iterations w). ends_loop (interval opts) it) \<longrightarrow> (\<exists>r. start opts w = Some r))"
proof -
  let ?p = "output_path_of opts w"
  let ?s0 = "session0 (banner d ?p (interval opts))"
  have "(\<exists>x. ending r = LoopEnded x) \<and> opened r = Some d \<and> releases r = 1"
    if "start opts w = Some r" for r
  proof -
    from start_loop_SomeD [OF assms that] obtain x s
      where loop: "recording_loop ?p (interval opts) ?s0 (iterations w) = Some (x, s)"
        and r: "r = run_result d x s"
      by blast
    from recording_loop_counts [OF loop] have "released s = 0" by simp
    with r show ?thesis by simp
  qed
  moreover have "\<exists>r. start opts w = Some r"
    if "\<exists>it\<in>set (iterations w). ends_loop (interval opts) it"
  proof -
    from recording_loop_returns [OF that] obtain x s
      where "recording_loop ?p (interval opts) ?s0 (iterations w) = Some (x, s)"
      by blast
    from start_loop_Some [OF assms this] show ?thesis by blast
  qed
  ultimately show ?thesis by blast
qed

text \<open>
  The theorem on three runs, one for each way out of the loop: the flag seen at the
  check, a read without a frame, an exception in the body.
\<close>

theorem handle_released_exactly_once_witness:
  "(\<exists>r. start defaults (studio [frame_ok, frame_ok\<lparr>sigint := [AtCheck]\<rparr>]) = Some r
        \<and> opened r = Some 0 \<and> releases r = 1)
   \<and> (\<exists>r. start defaults (studio [frame_ok, frame_ok\<lparr>cap_read := NoFrame\<rparr>]) = Some r
        \<and> opened r = Some 0 \<and> releases r = 1)
   \<and> (\<exists>r. start defaults (studio [frame_ok, frame_ok\<lparr>live_update_raises := True\<rparr>]) = Some r
        \<and> opened r = Some 0 \<and> releases r = 1)
   \<and> map_option ending (start defaults (studio [frame_ok, frame_ok\<lparr>sigint := [AtCheck]\<rparr>]))
        = Some (LoopEnded OperatorStop)
   \<and> map_option ending (start defaults (studio [frame_ok, frame_ok\<lparr>cap_read := NoFrame\<rparr>]))
        = Some (LoopEnded CaptureFailure)
   \<and> map_option ending (start defaults (studio [frame_ok, frame_ok\<lparr>live_update_raises := True\<rparr>]))
        = Some (LoopEnded ErrorRaised)"
proof -
  have once: "\<exists>r. start defaults (studio [frame_ok, it]) = Some r
                 \<and> opened r = Some 0 \<and> releases r = 1"
    if "ends_loop 1 it" for it
  proof -
    let ?w = "studio [frame_ok, it]"
    have pre: "\<not> mkdir_raises ?w" "is_opened ?w 0" "\<not> live_raises ?w" by simp_all
    have "\<exists>i\<in>set (iterations ?w). ends_loop (interval defaults) i"
      using that by simp
    with handle_released_exactly_once [OF pre(1) studio_resolves pre(2,3)]
    show ?thesis by blast
  qed
  have "ends_loop 1 (frame_ok\<lparr>sigint := [AtCheck]\<rparr>)"
    "ends_loop 1 (frame_ok\<lparr>cap_read := NoFrame\<rparr>)"
    "ends_loop 1 (frame_ok\<lparr>live_update_raises := True\<rparr>)"
    by (simp_all add: ends_loop_def completes_def)
  note a = this [THEN once]
  have b: "map_option ending (start defaults (studio [frame_ok, frame_ok\<lparr>sigint := [AtCheck]\<rparr>]))
        = Some (LoopEnded OperatorStop)"
    "map_option ending (start defaults (studio [frame_ok, frame_ok\<lparr>cap_read := NoFrame\<rparr>]))
        = Some (LoopEnded CaptureFailure)"
    "map_option ending (start defaults (studio [frame_ok, frame_ok\<lparr>live_update_raises := True\<rparr>]))
        = Some (LoopEnded ErrorRaised)"
    by code_simp+
  from a b show ?thesis by blast
qed

section \<open>The report of the frame count\<close>

text \<open>
  Claim C9, as it stands, on three runs that end before the loop: an empty enumeration, a
  selector without a match, a device that does not open. Each prints its error and
  nothing else; no count of frames is reported.
\<close>

theorem frame_count_not_reported_before_loop:
  "start defaults ((studio [frame_ok])\<lparr>cameras := []\<rparr>)
     = Some \<lparr>ending = Rejected NoCamerasFound, exit_code = 1,
             echoed = [ClickError NoCamerasFound], opened = None, releases = 0,
             frames = None, writes = []\<rparr>
   \<and> start (defaults\<lparr>device := ''5''\<rparr>) (studio [frame_ok])
     = Some \<lparr>ending = Rejected (DeviceNotFound ''5''), exit_code = 1,
             echoed = [ClickError (DeviceNotFound ''5'')], opened = None, releases = 0,
             frames = None, writes = []\<rparr>
   \<and> start defaults ((studio [frame_ok])\<lparr>is_opened := (\<lambda>i. False)\<rparr>)
     = Some \<lparr>ending = OpenFailed, exit_code = 1, echoed = [CouldNotOpen 0], opened = None,
             releases = 0, frames = None, writes = []\<rparr>"
  by code_simp

text \<open>
  Claim C9, amended. A run that leaves the loop, on any of its three ways out, prints the
  count of frames as its last line, and that count is the number of frames read and
  handed to the writer. A run that ends before the loop prints no count, and has
  captured no frame.
\<close>

theorem frame_count_reported_when_loop_ends:
  assumes "start opts w = Some r"
  shows "(\<forall>x. ending r = LoopEnded x
            \<longrightarrow> frames r = Some (int (length (writes r)))
                \<and> last (echoed r) = RecordingStopped (int (length (writes r))))
       \<and> ((\<forall>x. ending r \<noteq> LoopEnded x)
            \<longrightarrow> (\<forall>n. RecordingStopped n \<notin> set (echoed r)) \<and> writes r = [])"
proof -
  have "frames r = Some (int (length (writes r)))
      \<and> last (echoed r) = RecordingStopped (int (length (writes r)))"
    if "ending r = LoopEnded x" for x
  proof -
    from start_loop_ended [OF assms that] obtain d s where r: "r = run_result d x s"
      and loop: "recording_loop (output_path_of opts w) (interval opts)
                  (session0 (banner d (output_path_of opts w) (interval opts))) (iterations w)
                = Some (x, s)"
      by blast
    from recording_loop_counts [OF loop] have "frame_count s = int (length (written s))"
      by simp
    with r show ?thesis by simp
  qed
  moreover have "(\<forall>n. RecordingStopped n \<notin> set (echoed r)) \<and> writes r = []"
    if "\<forall>x. ending r \<noteq> LoopEnded x"
    using assms that
    by (auto simp: start_def Let_def banner_def split: if_splits sum.splits option.splits)
  ultimately show ?thesis by blast
qed

text \<open>The theorem on a run stopped after one frame and on a run without cameras.\<close>

theorem frame_count_reported_when_loop_ends_witness:
  "(\<exists>r. start defaults (studio [frame_ok, frame_ok\<lparr>sigint := [AtCheck]\<rparr>]) = Some r
       \<and> ending r = LoopEnded OperatorStop \<and> frames r = Some 1
       \<and> last (echoed r) = RecordingStopped 1)
   \<and> (\<exists>r. start defaults ((studio [frame_ok])\<lparr>cameras := []\<rparr>) = Some r
       \<and> ending r = Rejected NoCamerasFound \<and> RecordingStopped 0 \<notin> set (echoed r))"
proof -
  let ?r = "\<lparr>ending = LoopEnded OperatorStop, exit_code = 0,
      echoed = [RecordingFrom 0 ''capture-20240101-120000'', CaptureInterval 1, PressCtrlC,
                StoppingRecording, RecordingStopped 1],
      opened = Some 0, releases = 1, frames = Some 1,
      writes = [\<lparr>directory = ''capture-20240101-120000'', filename = ''frame_000000.jpg'',
                 returned = True\<rparr>]\<rparr>"
  let ?e = "\<lparr>ending = Rejected NoCamerasFound, exit_code = 1,
             echoed = [ClickError NoCamerasFound], opened = None, releases = 0,
             frames = None, writes = []\<rparr>"
  have run: "start defaults (studio [frame_ok, frame_ok\<lparr>sigint := [AtCheck]\<rparr>]) = Some ?r"
    by code_simp
  have rej: "start defaults ((studio [frame_ok])\<lparr>cameras := []\<rparr>) = Some ?e"
    by code_simp
  from frame_count_reported_when_loop_ends [OF run]
  have "frames ?r = Some (int (length (writes ?r)))
      \<and> last (echoed ?r) = RecordingStopped (int (length (writes ?r)))"
    by simp
  then have 1: "ending ?r = LoopEnded OperatorStop \<and> frames ?r = Some 1
      \<and> last (echoed ?r) = RecordingStopped 1"
    by simp
  from frame_count_reported_when_loop_ends [OF rej]
  have 2: "ending ?e = Rejected NoCamerasFound \<and> RecordingStopped 0 \<notin> set (echoed ?e)"
    by simp
  from run 1 rej 2 show ?thesis by blast
qed

section \<open>A negative interval\<close>

text \<open>
  Claim C4, as it stands, with \<open>--interval -1\<close> (the option is converted by \<open>float\<close>,
  which accepts it, and \<open>start\<close> does not look at its sign): the device is opened, a frame
  is read and written to \<open>frame_000000.jpg\<close>, and only then \<open>time.sleep\<close> raises.
\<close>

theorem negative_interval_session_created:
  "start (defaults\<lparr>interval := - 1\<rparr>) (studio [frame_ok])
     = Some \<lparr>ending = LoopEnded ErrorRaised, exit_code = 1,
             echoed = [RecordingFrom 0 ''capture-20240101-120000'', CaptureInterval (- 1),
                       PressCtrlC, RecordingStopped 1],
             opened = Some 0, releases = 1, frames = Some 1,
             writes = [\<lparr>directory = ''capture-20240101-120000'',
                        filename = ''frame_000000.jpg'', returned = True\<rparr>]\<rparr>"
  by code_simp

text \<open>
  Claim C4, amended. A negative interval is not rejected: the device is resolved and
  opened as for any interval, and the loop is entered. Its first iteration ends the run
  with the handle released once and at most one frame written, the count printed being
  the number of frames written. When the flag is not set at the first check, the frame
  is read and written and the display updated, the wait raises: the run ends by an
  exception with exit code 1, and exactly \<open>frame_000000.jpg\<close> has been written.
\<close>

theorem negative_interval_first_wait_raises:
  assumes "interval opts < 0"
    and "\<not> mkdir_raises w" and "resolve_device (cameras w) (device opts) = Inr d"
    and "is_opened w d" and "\<not> live_raises w"
    and "iterations w = it # its"
  shows "\<exists>r. start opts w = Some r \<and> opened r = Some d \<and> releases r = 1
           \<and> length (writes r) \<le> 1 \<and> frames r = Some (int (length (writes r)))
           \<and> (AtCheck \<notin> set (sigint it) \<and> cap_read it = Frame \<and> cv2_imwrite it \<noteq> WriteRaises
                \<and> \<not> live_update_raises it
              \<longrightarrow> ending r = LoopEnded ErrorRaised \<and> exit_code r = 1 \<and> frames r = Some 1
                  \<and> map filename (writes r) = [frame_name 0])"
proof -
  let ?p = "output_path_of opts w"
  let ?s0 = "session0 (banner d ?p (interval opts))"
  let ?s1 = "deliver AtCheck it ?s0"
  note run = start_loop_Some [OF assms(2-5)]
  have nc: "\<not> completes (interval opts) it"
    using assms(1) by (simp add: completes_def)
  show ?thesis
  proof (cases "AtCheck \<in> set (sigint it)")
    case True
    then have "recording_loop ?p (interval opts) ?s0 (it # its) = Some (OperatorStop, ?s1)"
      by (simp add: Let_def)
    with run assms(6) have "start opts w = Some (run_result d OperatorStop ?s1)" by simp
    with True show ?thesis by simp
  next
    case False
    from loop_body_not_completes [OF nc, of ?p ?s1] obtain x s'
      where body: "loop_body ?p (interval opts) ?s1 it = Inl (x, s')" by blast
    with False have "recording_loop ?p (interval opts) ?s0 (it # its) = Some (x, s')"
      by (simp add: Let_def)
    with run assms(6) have r: "start opts w = Some (run_result d x s')" by simp
    from loop_body_counts [OF disjI1, OF body]
    have cnt: "released s' = 0" "frame_count s' = int (length (written s'))"
      "frame_count s' \<le> 1"
      by simp_all
    have "x = ErrorRaised \<and> frame_count s' = 1 \<and> map filename (written s') = [frame_name 0]"
      if "cap_read it = Frame" "cv2_imwrite it \<noteq> WriteRaises" "\<not> live_update_raises it"
      using that body assms(1)
      by (cases "cv2_imwrite it") (auto simp: loop_body_def Let_def)
    with r cnt show ?thesis by auto
  qed
qed

text \<open>The theorem with the interval \<open>-1\<close> on a camera that works.\<close>

theorem negative_interval_first_wait_raises_witness:
  "\<exists>r. start (defaults\<lparr>interval := - 1\<rparr>) (studio [frame_ok, frame_ok]) = Some r
     \<and> opened r = Some 0 \<and> releases r = 1
     \<and> ending r = LoopEnded ErrorRaised \<and> exit_code r = 1 \<and> frames r = Some 1
     \<and> map filename (writes r) = [''frame_000000.jpg'']"
proof -
  let ?w = "studio [frame_ok, frame_ok]"
  let ?o = "defaults\<lparr>interval := - 1\<rparr>"
  have name0: "frame_name 0 = ''frame_000000.jpg''" by code_simp
  have first: "AtCheck \<notin> set (sigint frame_ok) \<and> cap_read frame_ok = Frame
      \<and> cv2_imwrite frame_ok \<noteq> WriteRaises \<and> \<not> live_update_raises frame_ok"
    by (simp add: frame_ok_def)
  have h1: "interval ?o < 0" by simp
  have h2: "\<not> mkdir_raises ?w" by simp
  have h3: "resolve_device (cameras ?w) (device ?o) = Inr 0"
    using studio_resolves [of "[frame_ok, frame_ok]"] by simp
  have h4: "is_opened ?w 0" by simp
  have h5: "\<not> live_raises ?w" by simp
  have h6: "iterations ?w = frame_ok # [frame_ok]" by simp
  from negative_interval_first_wait_raises [OF h1 h2 h3 h4 h5 h6]
  obtain r where r: "start ?o ?w = Some r \<and> opened r = Some 0 \<and> releases r = 1
           \<and> length (writes r) \<le> 1 \<and> frames r = Some (int (length (writes r)))
           \<and> (AtCheck \<notin> set (sigint frame_ok) \<and> cap_read frame_ok = Frame
                \<and> cv2_imwrite frame_ok \<noteq> WriteRaises \<and> \<not> live_update_raises frame_ok
              \<longrightarrow> ending r = LoopEnded ErrorRaised \<and> exit_code r = 1 \<and> frames r = Some 1
                  \<and> map filename (writes r) = [frame_name 0])" ..
  note c1 = r [THEN conjunct1]
  note c2 = r [THEN conjunct2, THEN conjunct1]
  note c3 = r [THEN conjunct2, THEN conjunct2, THEN conjunct1]
  note imp = r [THEN conjunct2, THEN conjunct2, THEN conjunct2, THEN conjunct2, THEN conjunct2]
  note e = imp [THEN mp, OF first]
  have n: "map filename (writes r) = [''frame_000000.jpg'']"
    using e [THEN conjunct2, THEN conjunct2, THEN conjunct2] unfolding name0 .
  show ?thesis
    by (rule exI [of _ r])
       (intro conjI c1 c2 c3 e [THEN conjunct1] e [THEN conjunct2, THEN conjunct1]
          e [THEN conjunct2, THEN conjunct2, THEN conjunct1] n)
qed

section \<open>A request to stop\<close>

text \<open>
  Claim C6, as it stands, on two runs in which the signal arrives during the first
  iteration: in the first the read then returns no frame, and the loop is left by \<open>break\<close>
  with the error line printed; in the second the wait raises after the frame was written,
  and the run ends by the exception with exit code 1. Neither ends as a stop by the
  operator.
\<close>

theorem stop_request_then_capture_failure:
  "start defaults (studio [frame_ok\<lparr>sigint := [InRead], cap_read := NoFrame\<rparr>, frame_ok])
     = Some \<lparr>ending = LoopEnded CaptureFailure, exit_code = 0,
             echoed = [RecordingFrom 0 ''capture-20240101-120000'', CaptureInterval 1,
                       PressCtrlC, StoppingRecording, FailedToCapture, RecordingStopped 0],
             opened = Some 0, releases = 1, frames = Some 0, writes = []\<rparr>
   \<and> start defaults (studio [frame_ok\<lparr>sigint := [InWrite], time_sleep_raises := True\<rparr>, frame_ok])
     = Some \<lparr>ending = LoopEnded ErrorRaised, exit_code = 1,
             echoed = [RecordingFrom 0 ''capture-20240101-120000'', CaptureInterval 1,
                       PressCtrlC, StoppingRecording, RecordingStopped 1],
             opened = Some 0, releases = 1, frames = Some 1,
             writes = [\<lparr>directory = ''capture-20240101-120000'',
                        filename = ''frame_000000.jpg'', returned = True\<rparr>]\<rparr>"
  by code_simp

lemma recording_loop_flag_set:
  "stop_flag s \<Longrightarrow> recording_loop p secs s (it # its) = Some (OperatorStop, deliver AtCheck it s)"
  by (simp add: Let_def)

lemma signal_in_body:
  assumes "sigint it \<noteq> []" and "AtCheck \<notin> set (sigint it)"
  shows "InRead \<in> set (sigint it) \<or> InWrite \<in> set (sigint it)
       \<or> InUpdate \<in> set (sigint it) \<or> InSleep \<in> set (sigint it)"
proof -
  from assms(1) have "hd (sigint it) \<in> set (sigint it)" by simp
  moreover from this assms(2) have "hd (sigint it) \<noteq> AtCheck" by metis
  ultimately show ?thesis by (metis phase.exhaust)
qed

text \<open>
  Claim C6, amended. Let the first signals arrive in an iteration that follows \<open>k\<close> quiet
  iterations which ran to their end. If one arrives before the check of that iteration,
  the loop ends there as a stop by the operator, with \<open>k\<close> frames. If they arrive later
  and the iteration runs to its end, its frame is written and counted, and the loop ends
  at the next check as a stop by the operator with \<open>k + 1\<close> frames, whatever the next
  iteration holds. In every case a loop that ends has counted at most \<open>k + 1\<close> frames:
  never more than one frame after the request. (When the iteration of the request fails
  in its body, the loop is left by that failure instead.)
\<close>

theorem stop_request_at_most_one_more_frame:
  assumes "\<not> stop_flag s" and "\<forall>it\<in>set pre. quiet it \<and> completes secs it"
    and "sigint it \<noteq> []"
  shows "(AtCheck \<in> set (sigint it) \<longrightarrow>
            (\<exists>s'. recording_loop p secs s (pre @ it # rest) = Some (OperatorStop, s')
                 \<and> frame_count s' = frame_count s + int (length pre)))
       \<and> (AtCheck \<notin> set (sigint it) \<and> completes secs it \<longrightarrow>
            (\<forall>nxt more. \<exists>s'. recording_loop p secs s (pre @ it # nxt # more) = Some (OperatorStop, s')
                 \<and> frame_count s' = frame_count s + int (length pre) + 1))
       \<and> (\<forall>x s'. recording_loop p secs s (pre @ it # rest) = Some (x, s') \<longrightarrow>
            frame_count s' \<le> frame_count s + int (length pre) + 1)"
proof -
  let ?sk = "fold (\<lambda>it. save_frame p (write_ok it)) pre s"
  let ?s1 = "deliver AtCheck it ?sk"
  have pre: "recording_loop p secs s (pre @ its) = recording_loop p secs ?sk its" for its
    by (rule recording_loop_prefix [OF assms(2) assms(1)])
  have sk: "frame_count ?sk = frame_count s + int (length pre)" "\<not> stop_flag ?sk"
    using assms(1) by (simp_all add: fold_save_frame_fields)
  have at_check: "\<exists>s'. recording_loop p secs s (pre @ it # rest) = Some (OperatorStop, s')
                 \<and> frame_count s' = frame_count s + int (length pre)"
    if "AtCheck \<in> set (sigint it)"
    using that sk unfolding pre by (simp add: Let_def)
  have in_body: "\<exists>s6. loop_body p secs ?s1 it = Inr s6 \<and> stop_flag s6
                 \<and> frame_count s6 = frame_count s + int (length pre) + 1"
    if "AtCheck \<notin> set (sigint it)" "completes secs it"
  proof -
    from loop_body_completes [OF that(2), of p ?s1] obtain ok
      where b: "loop_body p secs ?s1 it
           = Inr (deliver InSleep it (deliver InUpdate it
                   (save_frame p ok (deliver InWrite it (deliver InRead it ?s1)))))"
      by blast
    from signal_in_body [OF assms(3) that(1)] sk show ?thesis
      unfolding b by auto
  qed
  have next_check: "\<exists>s'. recording_loop p secs s (pre @ it # nxt # more) = Some (OperatorStop, s')
                 \<and> frame_count s' = frame_count s + int (length pre) + 1"
    if "AtCheck \<notin> set (sigint it)" "completes secs it" for nxt more
  proof -
    from in_body [OF that] obtain s6 where b: "loop_body p secs ?s1 it = Inr s6"
      and f: "stop_flag s6" and c: "frame_count s6 = frame_count s + int (length pre) + 1"
      by blast
    have "recording_loop p secs ?sk (it # nxt # more) = recording_loop p secs s6 (nxt # more)"
      using that(1) sk b by (simp add: Let_def)
    also have "\<dots> = Some (OperatorStop, deliver AtCheck nxt s6)"
      using f by (rule recording_loop_flag_set)
    finally show ?thesis
      unfolding pre using c by simp
  qed
  have bound: "frame_count s' \<le> frame_count s + int (length pre) + 1"
    if run: "recording_loop p secs s (pre @ it # rest) = Some (x, s')" for x s'
  proof (cases "AtCheck \<in> set (sigint it)")
    case True
    from at_check [OF True] run show ?thesis by auto
  next
    case False
    show ?thesis
    proof (cases "loop_body p secs ?s1 it")
      case (Inl left)
      with run False sk have "loop_body p secs ?s1 it = Inl (x, s')"
        unfolding pre by (simp add: Let_def)
      from loop_body_counts(4) [OF disjI1, OF this] sk show ?thesis by simp
    next
      case (Inr s6)
      then have comp: "completes secs it"
        using loop_body_not_completes [of secs it p ?s1] by auto
      show ?thesis
      proof (cases rest)
        case Nil
        with run False sk Inr show ?thesis
          unfolding pre by (simp add: Let_def)
      next
        case (Cons nxt more)
        from next_check [OF False comp, of nxt more] run Cons show ?thesis by auto
      qed
    qed
  qed
  from at_check next_check bound show ?thesis by blast
qed

text \<open>
  The theorem after one quiet iteration: a signal while the second frame is written lets
  that frame finish and stops the loop before a third read; a signal before the second
  check stops the loop with one frame.
\<close>

theorem stop_request_at_most_one_more_frame_witness:
  "(\<exists>s'. recording_loop ''out'' 1 (session0 [])
            [frame_ok, frame_ok\<lparr>sigint := [InWrite]\<rparr>, frame_ok\<lparr>cap_read := NoFrame\<rparr>]
          = Some (OperatorStop, s') \<and> frame_count s' = 2)
   \<and> (\<exists>s'. recording_loop ''out'' 1 (session0 []) [frame_ok, frame_ok\<lparr>sigint := [AtCheck]\<rparr>]
          = Some (OperatorStop, s') \<and> frame_count s' = 1)"
proof -
  have pre: "\<not> stop_flag (session0 [])" "\<forall>it\<in>set [frame_ok]. quiet it \<and> completes 1 it"
    by (simp_all add: frame_ok_completes)
  have a: "sigint (frame_ok\<lparr>sigint := [InWrite]\<rparr>) \<noteq> []"
    "AtCheck \<notin> set (sigint (frame_ok\<lparr>sigint := [InWrite]\<rparr>))
       \<and> completes 1 (frame_ok\<lparr>sigint := [InWrite]\<rparr>)"
    by (simp_all add: completes_def frame_ok_def)
  have b: "sigint (frame_ok\<lparr>sigint := [AtCheck]\<rparr>) \<noteq> []"
    "AtCheck \<in> set (sigint (frame_ok\<lparr>sigint := [AtCheck]\<rparr>))"
    by simp_all
  from stop_request_at_most_one_more_frame [OF pre a(1), of "''out''" "[]"] a(2)
  have 1: "\<exists>s'. recording_loop ''out'' 1 (session0 [])
            [frame_ok, frame_ok\<lparr>sigint := [InWrite]\<rparr>, frame_ok\<lparr>cap_read := NoFrame\<rparr>]
          = Some (OperatorStop, s') \<and> frame_count s' = 2"
    by (simp del: recording_loop.simps)
  from stop_request_at_most_one_more_frame [OF pre b(1), of "''out''" "[]"] b(2)
  have 2: "\<exists>s'. recording_loop ''out'' 1 (session0 []) [frame_ok, frame_ok\<lparr>sigint := [AtCheck]\<rparr>]
          = Some (OperatorStop, s') \<and> frame_count s' = 1"
    by (simp del: recording_loop.simps)
  from 1 2 show ?thesis by blast
qed

section \<open>The value returned by the writer\<close>

text \<open>
  Recording every write as a success commutes with each step of the loop, when the writer
  of each iteration is replaced by one that reports success.
\<close>

lemma as_written_fields [simp]:
  "sigint (as_written it) = sigint it" "cap_read (as_written it) = cap_read it"
  "live_update_raises (as_written it) = live_update_raises it"
  "time_sleep_raises (as_written it) = time_sleep_raises it"
  "cv2_imwrite (as_written it)
     = (case cv2_imwrite it of Written ok \<Rightarrow> Written True | WriteRaises \<Rightarrow> WriteRaises)"
  by (simp_all add: as_written_def)

lemma attempted_session_fields [simp]:
  "frame_count (attempted_session s) = frame_count s"
  "stop_flag (attempted_session s) = stop_flag s"
  "printed (attempted_session s) = printed s"
  "released (attempted_session s) = released s"
  "written (attempted_session s) = as_ok (written s)"
  by (simp_all add: attempted_session_def)

lemma signal_handler_attempted:
  "attempted_session (signal_handler s) = signal_handler (attempted_session s)"
  by (simp add: signal_handler_def attempted_session_def)

lemma deliver_attempted:
  "attempted_session (deliver q it s) = deliver q (as_written it) (attempted_session s)"
proof -
  have "attempted_session (fold (\<lambda>q' t. if q' = q then signal_handler t else t) qs s)
      = fold (\<lambda>q' t. if q' = q then signal_handler t else t) qs (attempted_session s)" for qs
    by (induction qs arbitrary: s) (simp_all add: signal_handler_attempted)
  then show ?thesis by (simp add: deliver_def)
qed

lemma printed_deliver_attempted:
  "printed (deliver q (as_written it) (attempted_session s)) = printed (deliver q it s)"
  by (simp add: deliver_attempted [symmetric])

lemma save_frame_attempted:
  "attempted_session (save_frame p ok s) = save_frame p True (attempted_session s)"
  by (simp add: save_frame_def attempted_session_def as_ok_def)

lemma failed_attempted:
  "attempted_session (s\<lparr>printed := ls\<rparr>) = (attempted_session s)\<lparr>printed := ls\<rparr>"
  by (simp add: attempted_session_def)

lemma loop_body_attempted:
  "loop_body p secs (attempted_session s) (as_written it)
     = map_sum (map_prod id attempted_session) attempted_session (loop_body p secs s it)"
  by (cases "cap_read it"; cases "cv2_imwrite it")
     (simp_all add: loop_body_def Let_def deliver_attempted save_frame_attempted
        failed_attempted printed_deliver_attempted)

lemma recording_loop_attempted:
  "recording_loop p secs (attempted_session s) (map as_written its)
     = map_option (map_prod id attempted_session) (recording_loop p secs s its)"
proof (induction its arbitrary: s)
  case Nil
  then show ?case by simp
next
  case (Cons it its)
  show ?case
  proof (cases "loop_body p secs (deliver AtCheck it s) it")
    case (Inl left)
    then show ?thesis
      by (simp add: Let_def deliver_attempted [symmetric] loop_body_attempted id_def)
  next
    case (Inr s6)
    then show ?thesis
      by (simp add: Let_def deliver_attempted [symmetric] loop_body_attempted Cons.IH id_def)
  qed
qed

lemma run_result_attempted:
  "run_result d x (attempted_session s) = attempted (run_result d x s)"
  by (simp add: run_result_def finally_block_def Let_def attempted_def attempted_session_def)

lemma attempted_session0: "attempted_session (session0 ls) = session0 ls"
  by (simp add: attempted_session_def session0_def as_ok_def)

text \<open>
  Claim C10, as it stands, on a run whose first write fails by raising: the frame was
  read, yet it is not counted, the loop does not go on to a second iteration, and the run
  ends by the exception with exit code 1.
\<close>

theorem persist_failure_by_exception_ends_run:
  "start defaults (studio [frame_ok\<lparr>cv2_imwrite := WriteRaises\<rparr>, frame_ok])
     = Some \<lparr>ending = LoopEnded ErrorRaised, exit_code = 1,
             echoed = [RecordingFrom 0 ''capture-20240101-120000'', CaptureInterval 1,
                       PressCtrlC, RecordingStopped 0],
             opened = Some 0, releases = 1, frames = Some 0, writes = []\<rparr>"
  by code_simp

text \<open>
  Claim C10, amended. The value returned by \<open>cv2.imwrite\<close> is never looked at: the run in
  which every writer that returns reports success has the same ending, exit code, printed
  lines, count of frames and file names, and differs only in the values recorded as
  returned. In an iteration in which a frame is read and nothing raises, whatever the
  writer returns, the write is made, the count goes up by one and the body reaches its
  end, so that the loop goes on to its next check. Only a write that raises ends the
  loop: by the exception, with the count and the writes as they were.
\<close>

theorem persist_result_never_inspected:
  "start opts (w\<lparr>iterations := map as_written (iterations w)\<rparr>) = map_option attempted (start opts w)
   \<and> (completes secs it \<longrightarrow>
        (\<exists>ok s'. cv2_imwrite it = Written ok \<and> loop_body p secs s it = Inr s'
           \<and> frame_count s' = frame_count s + 1
           \<and> length (written s') = length (written s) + 1))
   \<and> (cap_read it = Frame \<and> cv2_imwrite it = WriteRaises \<longrightarrow>
        (\<exists>s'. loop_body p secs s it = Inl (ErrorRaised, s')
           \<and> frame_count s' = frame_count s \<and> written s' = written s))"
proof -
  have "recording_loop q t (session0 ls) (map as_written (iterations w))
      = map_option (map_prod id attempted_session) (recording_loop q t (session0 ls) (iterations w))"
    for q t ls
    using recording_loop_attempted [of q t "session0 ls" "iterations w"]
    by (simp add: attempted_session0)
  then have run: "start opts (w\<lparr>iterations := map as_written (iterations w)\<rparr>)
      = map_option attempted (start opts w)"
    by (auto simp: start_def Let_def output_path_of_def attempted_def as_ok_def
          run_result_attempted [symmetric, unfolded attempted_def as_ok_def]
        split: sum.splits option.splits)
  have step: "\<exists>ok s'. cv2_imwrite it = Written ok \<and> loop_body p secs s it = Inr s'
           \<and> frame_count s' = frame_count s + 1
           \<and> length (written s') = length (written s) + 1"
    if "completes secs it"
    using loop_body_completes [OF that, of p s] by auto
  have raises: "\<exists>s'. loop_body p secs s it = Inl (ErrorRaised, s')
           \<and> frame_count s' = frame_count s \<and> written s' = written s"
    if "cap_read it = Frame \<and> cv2_imwrite it = WriteRaises"
    using that by (simp add: loop_body_def Let_def)
  from run step raises show ?thesis by blast
qed

text \<open>
  The theorem on a run whose first write fails: it goes on, writes a second frame, and
  ends as a stop by the operator with exit code 0 and two frames counted.
\<close>

theorem persist_result_never_inspected_witness:
  "map_option attempted
     (start defaults (studio [frame_ok\<lparr>cv2_imwrite := Written False\<rparr>,
                              frame_ok\<lparr>sigint := [InSleep]\<rparr>, frame_ok]))
   = Some \<lparr>ending = LoopEnded OperatorStop, exit_code = 0,
           echoed = [RecordingFrom 0 ''capture-20240101-120000'', CaptureInterval 1,
                     PressCtrlC, StoppingRecording, RecordingStopped 2],
           opened = Some 0, releases = 1, frames = Some 2,
           writes = [\<lparr>directory = ''capture-20240101-120000'',
                      filename = ''frame_000000.jpg'', returned = True\<rparr>,
                     \<lparr>directory = ''capture-20240101-120000'',
                      filename = ''frame_000001.jpg'', returned = True\<rparr>]\<rparr>"
proof -
  let ?its = "[frame_ok\<lparr>cv2_imwrite := Written False\<rparr>, frame_ok\<lparr>sigint := [InSleep]\<rparr>, frame_ok]"
  have "start defaults ((studio ?its)\<lparr>iterations := map as_written (iterations (studio ?its))\<rparr>)
      = Some \<lparr>ending = LoopEnded OperatorStop, exit_code = 0,
           echoed = [RecordingFrom 0 ''capture-20240101-120000'', CaptureInterval 1,
                     PressCtrlC, StoppingRecording, RecordingStopped 2],
           opened = Some 0, releases = 1, frames = Some 2,
           writes = [\<lparr>directory = ''capture-20240101-120000'',
                      filename = ''frame_000000.jpg'', returned = True\<rparr>,
                     \<lparr>directory = ''capture-20240101-120000'',
                      filename = ''frame_000001.jpg'', returned = True\<rparr>]\<rparr>"
    by code_simp
  then show ?thesis
    by (simp only: persist_result_never_inspected [THEN conjunct1])
qed

end
